theory Spec2Isabelle
  imports Main
begin

section \<open>Values, exceptions and coroutines\<close>

text \<open>
  The executor of \<^verbatim>\<open>pyco/concurrent.py\<close> handles Python objects. The model keeps what
  the code inspects: exceptions with their class (the code tests
  \<^verbatim>\<open>except Exception\<close> and \<^verbatim>\<open>isinstance(result, Exception)\<close>, which
  a \<^verbatim>\<open>BaseException\<close> such as \<^verbatim>\<open>KeyboardInterrupt\<close> escapes), values (an
  exception instance can be an ordinary value), and coroutine objects, which are
  described by what awaiting them gives: a value or a raised exception. A coroutine that
  never ends, or that calls back into the executor while it runs, is not described.
\<close>

datatype pyexc =
    TypeError string
  | ValueError string
  | RuntimeError string
  | TaskError string
  | BaseError string

fun is_Exception :: "pyexc \<Rightarrow> bool" where
  "is_Exception (BaseError m) = False"
| "is_Exception x = True"

datatype pyval = PNone | PInt int | PStr string | PExc pyexc

datatype coroutine = Returns pyval | Raises pyexc

text \<open>
  What a caller may hand to \<^verbatim>\<open>add\<close>: a coroutine function (called with the
  arguments it gives a coroutine object), a coroutine object, or anything else.
\<close>

datatype item =
    CoroutineFunction "pyval list \<Rightarrow> coroutine"
  | Coroutine coroutine
  | Other pyval

fun iscoroutinefunction :: "item \<Rightarrow> bool" where
  "iscoroutinefunction (CoroutineFunction f) = True"
| "iscoroutinefunction x = False"

fun call :: "item \<Rightarrow> pyval list \<Rightarrow> item" where
  "call (CoroutineFunction f) args = Coroutine (f args)"
| "call x args = x"

text \<open>\<^verbatim>\<open>Task = namedtuple('Task', ['index', 'coro'])\<close>\<close>

record task =
  index :: nat
  coro :: coroutine

section \<open>The executor object\<close>

text \<open>
  Notifications: \<^verbatim>\<open>start\<close> and \<^verbatim>\<open>finish\<close> carry the executor,
  \<^verbatim>\<open>task.start\<close> the task and \<^verbatim>\<open>task.finish\<close> the task and its result.
\<close>

datatype event = Start | Finish | TaskStart task | TaskFinish task pyval

text \<open>
  Modelled from the spec: the \<^verbatim>\<open>Observer\<close> class of \<^verbatim>\<open>pyco/observer.py\<close> is
  not part of the sources at hand. Following section 4.6 of the specification it is a
  registry of handlers per event name, in registration order: \<^verbatim>\<open>on\<close> registers a
  handler, \<^verbatim>\<open>off\<close> removes the handlers of one event, \<^verbatim>\<open>clear\<close> removes every
  subscription. A handler is known by a number; handlers are taken to return normally and
  to leave the executor alone, so a \<^verbatim>\<open>trigger\<close> is seen only in the list of
  notifications the executor has emitted.
\<close>

type_synonym observer = "(string \<times> nat) list"

definition observer_on :: "string \<Rightarrow> nat \<Rightarrow> observer \<Rightarrow> observer" where
  "observer_on ev fn obs = obs @ [(ev, fn)]"

definition observer_off :: "string \<Rightarrow> observer \<Rightarrow> observer" where
  "observer_off ev obs = filter (\<lambda>s. fst s \<noteq> ev) obs"

definition observer_clear :: "observer \<Rightarrow> observer" where
  "observer_clear obs = []"

text \<open>
  The fields of \<^verbatim>\<open>ConcurrentExecutor\<close>. \<open>limit\<close> is a natural number, since the
  constructor stores \<^verbatim>\<open>max(int(limit), 0)\<close>; \<open>throttler\<close> is the value of the
  \<^verbatim>\<open>asyncio.Semaphore\<close>, the number of free slots; \<open>emitted\<close> is not a field of the
  Python object: it lists the notifications triggered so far, oldest first. The event loop
  handle is left out.
\<close>

record executor =
  running :: bool
  return_exceptions :: bool
  limit :: nat
  pool :: "task list"
  observer :: observer
  throttler :: nat
  emitted :: "event list"

text \<open>A method returns its result, or the exception it raises, and the object as it left it.\<close>

type_synonym 'a outcome = "(pyexc + 'a) \<times> executor"

definition Semaphore :: "nat \<Rightarrow> nat" where
  "Semaphore v = v"

definition trigger :: "event \<Rightarrow> executor \<Rightarrow> executor" where
  "trigger ev e = e\<lparr>emitted := emitted e @ [ev]\<rparr>"

text \<open>
  \<^verbatim>\<open>add\<close> (alias \<^verbatim>\<open>submit\<close>). The case on \<open>Coroutine\<close> is the test
  \<^verbatim>\<open>asyncio.iscoroutine(coro)\<close>; \<^verbatim>\<open>max(len(self.pool), 0)\<close> is kept as written.
\<close>

definition add :: "item \<Rightarrow> pyval list \<Rightarrow> executor \<Rightarrow> coroutine outcome" where
  "add it args e =
     (let c = (if iscoroutinefunction it then call it args else it)
      in case c of
           Coroutine co \<Rightarrow>
             (let i = max (length (pool e)) 0;
                  t = \<lparr>index = i, coro = co\<rparr>
              in (Inr co, e\<lparr>pool := pool e @ [t]\<rparr>))
         | _ \<Rightarrow> (Inl (TypeError ''coro must be a coroutine object''), e))"

fun extend_pool :: "item list \<Rightarrow> executor \<Rightarrow> unit outcome" where
  "extend_pool [] e = (Inr (), e)"
| "extend_pool (c # cs) e =
     (case add c [] e of
        (Inl err, e1) \<Rightarrow> (Inl err, e1)
      | (Inr h, e1) \<Rightarrow> extend_pool cs e1)"

text \<open>
  The constructor. \<open>lim\<close> is the value of \<^verbatim>\<open>int(limit)\<close>; \<open>coros\<close> is
  \<open>None\<close> when the argument is not iterable (\<^verbatim>\<open>isiter\<close> of
  \<^verbatim>\<open>pyco/utils.py\<close>). An exception of \<^verbatim>\<open>extend\<close> leaves no object.
\<close>

definition ConcurrentExecutor :: "int \<Rightarrow> item list option \<Rightarrow> pyexc + executor" where
  "ConcurrentExecutor lim coros =
     (let l = nat (max lim 0);
          e = \<lparr>running = False, return_exceptions = False, limit = l, pool = [],
               observer = [], throttler = Semaphore l, emitted = []\<rparr>
      in case coros of
           None \<Rightarrow> Inr e
         | Some cs \<Rightarrow> (case extend_pool cs e of (Inl err, e1) \<Rightarrow> Inl err | (Inr u, e1) \<Rightarrow> Inr e1))"

definition reset :: "executor \<Rightarrow> unit outcome" where
  "reset e =
     (if running e then (Inl (RuntimeError ''executor is still running''), e)
      else (Inr (), e\<lparr>pool := [], observer := observer_clear (observer e),
                      throttler := Semaphore (limit e)\<rparr>))"

definition cancel :: "executor \<Rightarrow> executor" where
  "cancel e = e\<lparr>pool := [], running := False\<rparr>"

definition on :: "string \<Rightarrow> nat \<Rightarrow> executor \<Rightarrow> executor" where
  "on ev fn e = e\<lparr>observer := observer_on ev fn (observer e)\<rparr>"

definition off :: "string \<Rightarrow> executor \<Rightarrow> executor" where
  "off ev e = e\<lparr>observer := observer_off ev (observer e)\<rparr>"

definition is_running :: "executor \<Rightarrow> bool" where
  "is_running e = running e"

section \<open>Running one task\<close>

text \<open>
  \<^verbatim>\<open>safe_run\<close>: only an \<^verbatim>\<open>Exception\<close> is caught; it becomes the result when
  \<open>return_exceptions\<close> is set and is raised again otherwise.
\<close>

definition safe_run :: "coroutine \<Rightarrow> bool \<Rightarrow> pyexc + pyval" where
  "safe_run c ret_exc =
     (case c of
        Returns v \<Rightarrow> Inr v
      | Raises err \<Rightarrow>
          (if is_Exception err then (if ret_exc then Inr (PExc err) else Inl err)
           else Inl err))"

text \<open>
  \<^verbatim>\<open>_run_coro\<close>, in two parts: the guard and the \<^verbatim>\<open>task.start\<close> notification,
  then (\<open>run_coro_rest\<close>) the coroutine itself under \<^verbatim>\<open>safe_run\<close> and the
  \<^verbatim>\<open>task.finish\<close> notification, which an exception leaving \<^verbatim>\<open>safe_run\<close> skips.
  The concurrent strategy lets other tasks run between the two parts.
\<close>

definition run_coro_rest :: "task \<Rightarrow> executor \<Rightarrow> pyval outcome" where
  "run_coro_rest t e =
     (case safe_run (coro t) (return_exceptions e) of
        Inl err \<Rightarrow> (Inl err, e)
      | Inr result \<Rightarrow> (Inr result, trigger (TaskFinish t result) e))"

definition run_coro :: "task \<Rightarrow> executor \<Rightarrow> pyval outcome" where
  "run_coro t e =
     (if \<not> running e then (Inr PNone, e)
      else run_coro_rest t (trigger (TaskStart t) e))"

section \<open>The sequential strategy\<close>

text \<open>
  An \<^verbatim>\<open>asyncio.Future\<close>: unresolved, or holding a result or an exception.
  \<open>made_for\<close> is not in the Python object; it tells the futures apart by the index of
  the task they were created for.
\<close>

datatype fstate = Pending | Result pyval | Exception pyexc

record future =
  made_for :: nat
  state :: fstate

text \<open>\<^verbatim>\<open>isinstance(result, Exception)\<close>, giving the exception to raise or to store.\<close>

fun exception_instance :: "pyval \<Rightarrow> pyexc option" where
  "exception_instance (PExc x) = (if is_Exception x then Some x else None)"
| "exception_instance v = None"

text \<open>
  The loop of \<^verbatim>\<open>_run_sequentially\<close> with its two local lists. The first component
  of the result is the exception that left the loop, if one did; the lists are given as
  they were at that moment (they are local to the call and lost to the caller then).
  The future appended to \<open>pending\<close> is the object that is resolved afterwards and
  popped again: the list entry is updated in place.
\<close>

function seq_loop ::
  "future list \<Rightarrow> future list \<Rightarrow> executor \<Rightarrow> pyexc option \<times> future list \<times> future list \<times> executor"
where
  "seq_loop dn pd e =
     (case pool e of
        [] \<Rightarrow> (None, dn, pd, e)
      | t # rest \<Rightarrow>
          (let fut = \<lparr>made_for = index t, state = Pending\<rparr>;
               pd1 = pd @ [fut]
           in case run_coro t (e\<lparr>pool := rest\<rparr>) of
                (Inl err, e1) \<Rightarrow> (Some err, dn, pd1, e1)
              | (Inr result, e1) \<Rightarrow>
                  (case exception_instance result of
                     Some x \<Rightarrow>
                       (if \<not> return_exceptions e1 then (Some x, dn, pd1, e1)
                        else (let pd2 = pd1[length pd := fut\<lparr>state := Exception x\<rparr>]
                              in seq_loop (dn @ [last pd2]) (butlast pd2) e1))
                   | None \<Rightarrow>
                       (let pd2 = pd1[length pd := fut\<lparr>state := Result result\<rparr>]
                        in seq_loop (dn @ [last pd2]) (butlast pd2) e1))))"
  by pat_completeness auto
termination
  by (relation "measure (\<lambda>(dn, pd, e). length (pool e))")
     (auto simp: run_coro_def run_coro_rest_def trigger_def split: if_splits sum.splits)

declare seq_loop.simps [simp del]

text \<open>\<^verbatim>\<open>_run_sequentially\<close>; the sets it returns are kept as lists.\<close>

definition run_sequentially :: "executor \<Rightarrow> (future list \<times> future list) outcome" where
  "run_sequentially e =
     (case seq_loop [] [] e of
        (Some err, dn, pd, e1) \<Rightarrow> (Inl err, e1)
      | (None, dn, pd, e1) \<Rightarrow> (Inr (dn, pd), e1))"

section \<open>The concurrent strategy\<close>

text \<open>
  \<^verbatim>\<open>_run_concurrently\<close> empties the pool into a list of coroutines, each task
  wrapped by \<^verbatim>\<open>_run_coro\<close> (no limit) or by \<^verbatim>\<open>_schedule_coro\<close> (which
  holds a slot of the semaphore around \<^verbatim>\<open>_run_coro\<close>).
\<close>

datatype wrapped = RunCoro task | ScheduleCoro task

fun wrapped_task :: "wrapped \<Rightarrow> task" where
  "wrapped_task (RunCoro t) = t"
| "wrapped_task (ScheduleCoro t) = t"

function concurrent_loop :: "nat \<Rightarrow> wrapped list \<Rightarrow> executor \<Rightarrow> wrapped list \<times> executor" where
  "concurrent_loop lim coros e =
     (case pool e of
        [] \<Rightarrow> (coros, e)
      | t # rest \<Rightarrow>
          (if lim \<le> 0 then concurrent_loop lim (coros @ [RunCoro t]) (e\<lparr>pool := rest\<rparr>)
           else concurrent_loop lim (coros @ [ScheduleCoro t]) (e\<lparr>pool := rest\<rparr>)))"
  by pat_completeness auto
termination
  by (relation "measure (\<lambda>(lim, coros, e). length (pool e))") auto

declare concurrent_loop.simps [simp del]

text \<open>
  \<^verbatim>\<open>asyncio.wait\<close> runs the coroutines as cooperating tasks on one thread. A
  wrapped coroutine is \<open>Waiting\<close> until it has passed the semaphore and triggered
  \<^verbatim>\<open>task.start\<close>, \<open>Inflight\<close> while the task's own coroutine runs, and
  \<open>Completed\<close> with its result or exception after \<open>run_coro_rest\<close> and the
  release of its slot. \<open>step_job\<close> moves one job on by one such step; a job
  blocked at an exhausted semaphore stays where it is. The order of steps is the event
  loop's choice.
\<close>

datatype phase = Waiting | Inflight | Completed "pyexc + pyval"

record wait_state =
  exec :: executor
  jobs :: "(wrapped \<times> phase) list"

fun step_job :: "wrapped \<Rightarrow> phase \<Rightarrow> executor \<Rightarrow> phase \<times> executor" where
  "step_job (RunCoro t) Waiting e =
     (if \<not> running e then (Completed (Inr PNone), e)
      else (Inflight, trigger (TaskStart t) e))"
| "step_job (ScheduleCoro t) Waiting e =
     (if throttler e = 0 then (Waiting, e)
      else (let e1 = e\<lparr>throttler := throttler e - 1\<rparr>
            in if \<not> running e1
               then (Completed (Inr PNone), e1\<lparr>throttler := throttler e1 + 1\<rparr>)
               else (Inflight, trigger (TaskStart t) e1)))"
| "step_job (RunCoro t) Inflight e =
     (case run_coro_rest t e of (r, e1) \<Rightarrow> (Completed r, e1))"
| "step_job (ScheduleCoro t) Inflight e =
     (case run_coro_rest t e of
        (r, e1) \<Rightarrow> (Completed r, e1\<lparr>throttler := throttler e1 + 1\<rparr>))"
| "step_job w (Completed r) e = (Completed r, e)"

definition advance :: "nat \<Rightarrow> wait_state \<Rightarrow> wait_state" where
  "advance i s =
     (if i < length (jobs s)
      then (case jobs s ! i of
              (w, p) \<Rightarrow>
                (case step_job w p (exec s) of
                   (p1, e1) \<Rightarrow> s\<lparr>exec := e1, jobs := (jobs s)[i := (w, p1)]\<rparr>))
      else s)"

text \<open>Any sequence of steps, each naming the job that moves.\<close>

fun steps :: "nat list \<Rightarrow> wait_state \<Rightarrow> wait_state" where
  "steps [] s = s"
| "steps (i # xs) s = steps xs (advance i s)"

fun can_step :: "executor \<Rightarrow> wrapped \<times> phase \<Rightarrow> bool" where
  "can_step e (RunCoro t, Waiting) = True"
| "can_step e (ScheduleCoro t, Waiting) = (0 < throttler e)"
| "can_step e (w, Inflight) = True"
| "can_step e (w, Completed r) = False"

definition ready :: "wait_state \<Rightarrow> nat list" where
  "ready s = filter (\<lambda>i. can_step (exec s) (jobs s ! i)) [0..<length (jobs s)]"

fun is_completed :: "wrapped \<times> phase \<Rightarrow> bool" where
  "is_completed (w, Completed r) = True"
| "is_completed (w, p) = False"

fun weight :: "wrapped \<times> phase \<Rightarrow> nat" where
  "weight (w, Waiting) = 2"
| "weight (w, Inflight) = 1"
| "weight (w, Completed r) = 0"

definition remaining :: "wait_state \<Rightarrow> nat" where
  "remaining s = sum_list (map weight (jobs s))"

text \<open>
  \<^verbatim>\<open>asyncio.wait(coros, return_when='ALL_COMPLETED')\<close> without a timeout: the
  event loop keeps stepping jobs until all are completed. \<open>pick\<close> stands for the
  event loop: it chooses, from the state, which of the jobs that can move does so (the
  states of one wait never repeat, so every order of steps is some \<open>pick\<close>). When
  jobs remain and none can move the wait never returns: the value \<open>None\<close>.
  Every step of a job that can move lowers \<open>remaining\<close>, so the recursion ends.
\<close>

function wait_all :: "(wait_state \<Rightarrow> nat) \<Rightarrow> wait_state \<Rightarrow> wait_state option" where
  "wait_all pick s =
     (if list_all is_completed (jobs s) then Some s
      else (case ready s of
              [] \<Rightarrow> None
            | r # rs \<Rightarrow> wait_all pick (advance ((r # rs) ! (pick s mod length (r # rs))) s)))"
  by pat_completeness auto
termination
proof (relation "measure (\<lambda>(pick, s). remaining s)")
  show "wf (measure (\<lambda>(pick :: wait_state \<Rightarrow> nat, s). remaining s))"
    by simp
next
  fix pick :: "wait_state \<Rightarrow> nat" and s :: wait_state and r :: nat and rs :: "nat list"
  assume rd: "ready s = r # rs"
  let ?i = "(r # rs) ! (pick s mod length (r # rs))"
  have "?i \<in> set (ready s)"
    unfolding rd by (rule nth_mem) simp
  then have i: "?i < length (jobs s)" and c: "can_step (exec s) (jobs s ! ?i)"
    by (simp_all add: ready_def)
  obtain w p where wp: "jobs s ! ?i = (w, p)" by (cases "jobs s ! ?i")
  obtain p1 e1 where st: "step_job w p (exec s) = (p1, e1)" by (cases "step_job w p (exec s)")
  have less: "weight (w, p1) < weight (jobs s ! ?i)"
    using c st unfolding wp
    by (cases w; cases p) (auto split: if_splits prod.splits simp: Let_def)
  have le: "weight (jobs s ! ?i) \<le> sum_list (map weight (jobs s))"
    using i by (simp add: member_le_sum_list)
  have "sum_list (map weight ((jobs s)[?i := (w, p1)])) =
        sum_list (map weight (jobs s)) + weight (w, p1) - weight (jobs s ! ?i)"
    using i by (simp add: map_update sum_list_update)
  with le less have "sum_list (map weight ((jobs s)[?i := (w, p1)])) < sum_list (map weight (jobs s))"
    by linarith
  then have "remaining (advance ?i s) < remaining s"
    using i wp st by (simp add: remaining_def advance_def)
  then show "((pick, advance ?i s), (pick, s)) \<in> measure (\<lambda>(pick, s). remaining s)"
    by simp
qed

declare wait_all.simps [simp del]

text \<open>The \<^verbatim>\<open>asyncio.Task\<close> that \<^verbatim>\<open>asyncio.wait\<close> makes of a coroutine.\<close>

fun job_future :: "wrapped \<times> phase \<Rightarrow> future" where
  "job_future (w, Completed (Inr v)) = \<lparr>made_for = index (wrapped_task w), state = Result v\<rparr>"
| "job_future (w, Completed (Inl err)) = \<lparr>made_for = index (wrapped_task w), state = Exception err\<rparr>"
| "job_future (w, p) = \<lparr>made_for = index (wrapped_task w), state = Pending\<rparr>"

text \<open>The state in which \<^verbatim>\<open>asyncio.wait\<close> starts: no coroutine has run yet.\<close>

definition waiting :: "wrapped list \<Rightarrow> executor \<Rightarrow> wait_state" where
  "waiting coros e = \<lparr>exec = e, jobs = map (\<lambda>w. (w, Waiting)) coros\<rparr>"

text \<open>
  \<^verbatim>\<open>_run_concurrently\<close>, with the default \<^verbatim>\<open>return_when\<close> and no timeout.
  \<^verbatim>\<open>asyncio.wait\<close> refuses an empty list with a \<^verbatim>\<open>ValueError\<close>; an exception
  of a task does not leave it, it is kept in the task's future.
\<close>

definition run_concurrently ::
  "(wait_state \<Rightarrow> nat) \<Rightarrow> executor \<Rightarrow> (future list \<times> future list) outcome option"
where
  "run_concurrently pick e =
     (case concurrent_loop (limit e) [] e of
        (coros, e1) \<Rightarrow>
          (case coros of
             [] \<Rightarrow> Some (Inl (ValueError ''Set of coroutines/Futures is empty.''), e1)
           | c # cs \<Rightarrow>
               (case wait_all pick (waiting coros e1) of
                  None \<Rightarrow> None
                | Some s \<Rightarrow>
                    Some (Inr (map job_future (filter is_completed (jobs s)),
                               map job_future (filter (\<lambda>j. \<not> is_completed j) (jobs s))),
                          exec s))))"

text \<open>
  The state in which the wait of \<^verbatim>\<open>_run_concurrently\<close> starts for an executor:
  the pool emptied into wrapped coroutines, none of which has run
  (\<open>run_concurrently_wait_begin\<close> below).
\<close>

definition wait_begin :: "executor \<Rightarrow> wait_state" where
  "wait_begin e = (case concurrent_loop (limit e) [] e of (coros, e1) \<Rightarrow> waiting coros e1)"

text \<open>
  The future of a task that ran to its end in the concurrent strategy: it holds the value
  \<^verbatim>\<open>safe_run\<close> returned, or the exception that left \<^verbatim>\<open>safe_run\<close>.
\<close>

definition task_future :: "bool \<Rightarrow> task \<Rightarrow> future" where
  "task_future ret t =
     \<lparr>made_for = index t,
      state = (case safe_run (coro t) ret of Inl x \<Rightarrow> Exception x | Inr v \<Rightarrow> Result v)\<rparr>"

section \<open>The run cycle\<close>

text \<open>
  \<^verbatim>\<open>run\<close> (alias \<^verbatim>\<open>wait\<close>). \<open>ret_exc\<close> is the argument
  \<^verbatim>\<open>return_exceptions\<close>, \<open>None\<close> when it is omitted. The source tests
  \<^verbatim>\<open>self.limit == 1\<close> and then \<^verbatim>\<open>self.limit != 1\<close>; the limit does not
  change in between, so the two tests are one choice. \<open>run_begin\<close> is the part from
  setting the running flag to the \<^verbatim>\<open>start\<close> notification, \<open>run_end\<close> the part
  after the strategy. \<open>Start\<close> and \<open>Finish\<close> in the list of notifications stand for
  the two calls \<^verbatim>\<open>self.observer.trigger('start', self)\<close> and
  \<^verbatim>\<open>self.observer.trigger('finish', self)\<close>, which the source makes without
  awaiting their result. An exception of the sequential
  strategy leaves \<^verbatim>\<open>run\<close> at once: the lines after it are not reached.
  \<open>None\<close> is a run that never returns.
\<close>

definition run_end :: "future list \<times> future list \<Rightarrow> executor \<Rightarrow> (future list \<times> future list) outcome" where
  "run_end dp e =
     (let e1 = e\<lparr>running := False\<rparr>;
          e2 = trigger Finish e1
      in case reset e2 of
           (Inl err, e3) \<Rightarrow> (Inl err, e3)
         | (Inr u, e3) \<Rightarrow> (Inr dp, e3))"

definition run_begin :: "bool option \<Rightarrow> executor \<Rightarrow> executor" where
  "run_begin ret_exc e =
     (let e1 = e\<lparr>running := True\<rparr>;
          e2 = (case ret_exc of None \<Rightarrow> e1 | Some b \<Rightarrow> e1\<lparr>return_exceptions := b\<rparr>);
          e3 = trigger Start e2
      in e3)"

definition run ::
  "(wait_state \<Rightarrow> nat) \<Rightarrow> bool option \<Rightarrow> executor \<Rightarrow> (future list \<times> future list) outcome option"
where
  "run pick ret_exc e =
     (if running e then Some (Inl (RuntimeError ''executor is already running''), e)
      else if length (pool e) = 0 then Some (Inl (ValueError ''no coroutines to schedule''), e)
      else (let e3 = run_begin ret_exc e
            in if limit e3 = 1
               then (case run_sequentially e3 of
                       (Inl err, e4) \<Rightarrow> Some (Inl err, e4)
                     | (Inr dp, e4) \<Rightarrow> Some (run_end dp e4))
               else (case run_concurrently pick e3 of
                       None \<Rightarrow> None
                     | Some (Inl err, e4) \<Rightarrow> Some (Inl err, e4)
                     | Some (Inr dp, e4) \<Rightarrow> Some (run_end dp e4))))"

section \<open>Reading the notifications\<close>

text \<open>
  Two readings of a list of notifications, used to state what the strategies guarantee.
  \<open>started\<close> lists the tasks of the \<^verbatim>\<open>task.start\<close> notifications in the order
  they were emitted. \<open>fifo cur\<close> holds of a list in which tasks run strictly one after
  the other: a \<^verbatim>\<open>task.start\<close> is emitted only while no task is open, and the next
  task notification after it is the \<^verbatim>\<open>task.finish\<close> of that same task
  (\<open>cur\<close> is the task open at the beginning, if any).
\<close>

fun started :: "event list \<Rightarrow> task list" where
  "started [] = []"
| "started (TaskStart t # es) = t # started es"
| "started (ev # es) = started es"

fun fifo :: "task option \<Rightarrow> event list \<Rightarrow> bool" where
  "fifo cur [] = True"
| "fifo cur (TaskStart t # es) = (cur = None \<and> fifo (Some t) es)"
| "fifo cur (TaskFinish t v # es) = (cur = Some t \<and> fifo None es)"
| "fifo cur (ev # es) = fifo cur es"



section \<open>Invariants of the concurrent wait\<close>

text \<open>
  \<open>slot\<close> is 1 for a job that holds a slot of the semaphore: one wrapped by
  \<^verbatim>\<open>_schedule_coro\<close> whose task is in flight. \<open>settled ret\<close> holds of a job
  that, if completed, ended with what \<^verbatim>\<open>safe_run\<close> gives for its task's coroutine.
\<close>

fun slot :: "wrapped \<times> phase \<Rightarrow> nat" where
  "slot (ScheduleCoro t, Inflight) = 1"
| "slot j = 0"

fun settled :: "bool \<Rightarrow> wrapped \<times> phase \<Rightarrow> bool" where
  "settled ret (w, Completed r) = (r = safe_run (coro (wrapped_task w)) ret)"
| "settled ret (w, p) = True"






section \<open>Submission and construction\<close>

lemma concurrent_loop_eq:
  "concurrent_loop lim coros e =
     (coros @ map (if lim \<le> 0 then RunCoro else ScheduleCoro) (pool e), e\<lparr>pool := []\<rparr>)"
proof (induction lim coros e rule: concurrent_loop.induct)
  case (1 lim coros e)
  show ?case
  proof (cases "pool e")
    case Nil
    then show ?thesis by (subst concurrent_loop.simps) simp
  next
    case (Cons t rest)
    then show ?thesis
      using "1.IH"(1) [OF Cons] "1.IH"(2) [OF Cons]
      by (subst concurrent_loop.simps) simp
  qed
qed

lemma add_Coroutine:
  "add (Coroutine co) args e = (Inr co, e\<lparr>pool := pool e @ [\<lparr>index = length (pool e), coro = co\<rparr>]\<rparr>)"
  by (simp add: add_def)

lemma add_CoroutineFunction:
  "add (CoroutineFunction f) args e =
     (Inr (f args), e\<lparr>pool := pool e @ [\<lparr>index = length (pool e), coro = f args\<rparr>]\<rparr>)"
  by (simp add: add_def)

lemma add_Other:
  "add (Other v) args e = (Inl (TypeError ''coro must be a coroutine object''), e)"
  by (simp add: add_def)


lemma add_pool:
  assumes "add it args e = (Inr co, e1)"
  shows "pool e1 = pool e @ [\<lparr>index = length (pool e), coro = co\<rparr>]"
  using assms by (cases it) (auto simp: add_Coroutine add_CoroutineFunction add_Other)

lemma add_Inl:
  assumes "add it args e = (Inl err, e1)"
  shows "e1 = e \<and> err = TypeError ''coro must be a coroutine object'' \<and> (\<exists>v. it = Other v)"
  using assms by (cases it) (auto simp: add_Coroutine add_CoroutineFunction add_Other)




lemma ConcurrentExecutor_fields:
  assumes "ConcurrentExecutor lim coros = Inr e"
  shows "limit e = nat (max lim 0) \<and> throttler e = nat (max lim 0) \<and> \<not> running e \<and>
         \<not> return_exceptions e"
proof (cases coros)
  case None
  with assms show ?thesis by (auto simp: ConcurrentExecutor_def Semaphore_def Let_def)
next
  case (Some cs)
  define e0 where "e0 = \<lparr>running = False, return_exceptions = False, limit = nat (max lim 0),
     pool = [], observer = [], throttler = Semaphore (nat (max lim 0)), emitted = []\<rparr>"
  have keep: "limit e1 = limit e0 \<and> throttler e1 = throttler e0 \<and> running e1 = running e0 \<and>
      return_exceptions e1 = return_exceptions e0" if "extend_pool cs e0 = (r, e1)" for r e1
    using that
  proof (induction cs arbitrary: e0)
    case Nil
    then show ?case by simp
  next
    case (Cons c cs)
    show ?case
    proof (cases "add c [] e0")
      case (Pair r0 e2)
      show ?thesis
      proof (cases r0)
        case (Inl err)
        with Pair Cons.prems add_Inl [of c "[]" e0 err e2] show ?thesis by simp
      next
        case (Inr co)
        with Pair Cons.prems have "extend_pool cs e2 = (r, e1)" by simp
        from Cons.IH [OF this] add_pool [of c "[]" e0 co e2] Pair Inr show ?thesis
          by (cases c) (auto simp: add_Coroutine add_CoroutineFunction add_Other)
      qed
    qed
  qed
  from assms Some obtain u where "extend_pool cs e0 = (Inr u, e)"
    by (auto simp: ConcurrentExecutor_def Let_def e0_def split: prod.splits sum.splits)
  from keep [OF this] show ?thesis by (simp add: e0_def Semaphore_def)
qed



section \<open>Reset and the checks of run\<close>

text \<open>
  Claim C8. \<^verbatim>\<open>reset\<close> on a running executor raises
  \<^verbatim>\<open>RuntimeError('executor is still running')\<close> (the specification's
  StillRunningError) and changes nothing; otherwise it returns, and the executor differs
  from the one before in that the pool is empty, no subscription is left and the semaphore
  is a new one with as many free slots as the configured limit.
\<close>

theorem reset_effect:
  "(running e \<longrightarrow> reset e = (Inl (RuntimeError ''executor is still running''), e)) \<and>
   (\<not> running e \<longrightarrow>
      reset e = (Inr (), e\<lparr>pool := [], observer := [], throttler := limit e\<rparr>))"
  by (simp add: reset_def observer_clear_def Semaphore_def)

text \<open>\<^verbatim>\<open>reset\<close> on a running and on an idle executor with a task, a subscription and a used slot.\<close>

theorem reset_effect_witness:
  "reset \<lparr>running = True, return_exceptions = False, limit = 3,
          pool = [\<lparr>index = 0, coro = Returns PNone\<rparr>], observer = [(''start'', 7)],
          throttler = 1, emitted = []\<rparr> =
     (Inl (RuntimeError ''executor is still running''),
      \<lparr>running = True, return_exceptions = False, limit = 3,
          pool = [\<lparr>index = 0, coro = Returns PNone\<rparr>], observer = [(''start'', 7)],
          throttler = 1, emitted = []\<rparr>) \<and>
   reset \<lparr>running = False, return_exceptions = False, limit = 3,
          pool = [\<lparr>index = 0, coro = Returns PNone\<rparr>], observer = [(''start'', 7)],
          throttler = 1, emitted = []\<rparr> =
     (Inr (),
      \<lparr>running = False, return_exceptions = False, limit = 3,
          pool = [], observer = [], throttler = 3, emitted = []\<rparr>)"
  using reset_effect [of "\<lparr>running = True, return_exceptions = False, limit = 3,
          pool = [\<lparr>index = 0, coro = Returns PNone\<rparr>], observer = [(''start'', 7)],
          throttler = 1, emitted = []\<rparr>"]
        reset_effect [of "\<lparr>running = False, return_exceptions = False, limit = 3,
          pool = [\<lparr>index = 0, coro = Returns PNone\<rparr>], observer = [(''start'', 7)],
          throttler = 1, emitted = []\<rparr>"]
  by simp

text \<open>
  Claim C4, as amended. \<^verbatim>\<open>run\<close> on a running executor always raises
  \<^verbatim>\<open>RuntimeError('executor is already running')\<close> (AlreadyRunningError), whatever
  its queue holds; \<^verbatim>\<open>run\<close> on an idle executor with an empty queue always raises
  \<^verbatim>\<open>ValueError('no coroutines to schedule')\<close> (EmptyScheduleError). In both cases
  the executor is left exactly as it was (no state transition, no notification, no task
  executed) and the call does not return a result: the checks are the first statements of
  the coroutine, before any point where it could be suspended.
\<close>

theorem run_rejected:
  "(running e \<longrightarrow> run pick ret_exc e = Some (Inl (RuntimeError ''executor is already running''), e)) \<and>
   (\<not> running e \<and> pool e = [] \<longrightarrow>
      run pick ret_exc e = Some (Inl (ValueError ''no coroutines to schedule''), e))"
  by (simp add: run_def)

text \<open>Both rejections at concrete executors.\<close>

theorem run_rejected_witness:
  "run (\<lambda>s. 0) None \<lparr>running = True, return_exceptions = False, limit = 3,
          pool = [\<lparr>index = 0, coro = Returns PNone\<rparr>], observer = [],
          throttler = 3, emitted = []\<rparr> =
     Some (Inl (RuntimeError ''executor is already running''),
       \<lparr>running = True, return_exceptions = False, limit = 3,
          pool = [\<lparr>index = 0, coro = Returns PNone\<rparr>], observer = [],
          throttler = 3, emitted = []\<rparr>) \<and>
   run (\<lambda>s. 0) None \<lparr>running = False, return_exceptions = False, limit = 3,
          pool = [], observer = [], throttler = 3, emitted = []\<rparr> =
     Some (Inl (ValueError ''no coroutines to schedule''),
       \<lparr>running = False, return_exceptions = False, limit = 3,
          pool = [], observer = [], throttler = 3, emitted = []\<rparr>)"
  using run_rejected [of "\<lparr>running = True, return_exceptions = False, limit = 3,
          pool = [\<lparr>index = 0, coro = Returns PNone\<rparr>], observer = [],
          throttler = 3, emitted = []\<rparr>" "\<lambda>s. 0" None]
        run_rejected [of "\<lparr>running = False, return_exceptions = False, limit = 3,
          pool = [], observer = [], throttler = 3, emitted = []\<rparr>" "\<lambda>s. 0" None]
  by simp

text \<open>
  Claim C4 as stated fails: the check of the running flag comes first, so a running
  executor with an empty queue (as every executor is in the middle of a concurrent
  cycle) raises the RuntimeError and not the ValueError.
\<close>

theorem run_empty_while_running_counterexample:
  "\<not> (\<forall>pick ret_exc e. pool e = [] \<longrightarrow>
         run pick ret_exc e = Some (Inl (ValueError ''no coroutines to schedule''), e))"
proof
  assume a: "\<forall>pick ret_exc e. pool e = [] \<longrightarrow>
         run pick ret_exc e = Some (Inl (ValueError ''no coroutines to schedule''), e)"
  let ?e = "\<lparr>running = True, return_exceptions = False, limit = 3,
          pool = [], observer = [], throttler = 3, emitted = []\<rparr>"
  from a have "run (\<lambda>s. 0) None ?e = Some (Inl (ValueError ''no coroutines to schedule''), ?e)"
    by simp
  then show False by (simp add: run_def)
qed




section \<open>The sequential strategy, step by step\<close>

lemma seq_loop_Nil: "pool e = [] \<Longrightarrow> seq_loop dn pd e = (None, dn, pd, e)"
  by (subst seq_loop.simps) simp

lemma run_coro_running:
  "running e \<Longrightarrow> run_coro t e =
     (case safe_run (coro t) (return_exceptions e) of
        Inl err \<Rightarrow> (Inl err, e\<lparr>emitted := emitted e @ [TaskStart t]\<rparr>)
      | Inr v \<Rightarrow> (Inr v, e\<lparr>emitted := emitted e @ [TaskStart t, TaskFinish t v]\<rparr>))"
  by (simp add: run_coro_def run_coro_rest_def trigger_def split: sum.splits)

lemma seq_loop_Cons:
  assumes "pool e = t # rest" and "running e"
  shows "seq_loop dn pd e =
     (case safe_run (coro t) (return_exceptions e) of
        Inl err \<Rightarrow>
          (Some err, dn, pd @ [\<lparr>made_for = index t, state = Pending\<rparr>],
           e\<lparr>pool := rest, emitted := emitted e @ [TaskStart t]\<rparr>)
      | Inr v \<Rightarrow>
          (case exception_instance v of
             Some x \<Rightarrow>
               (if \<not> return_exceptions e
                then (Some x, dn, pd @ [\<lparr>made_for = index t, state = Pending\<rparr>],
                      e\<lparr>pool := rest, emitted := emitted e @ [TaskStart t, TaskFinish t v]\<rparr>)
                else seq_loop (dn @ [\<lparr>made_for = index t, state = Exception x\<rparr>]) pd
                      (e\<lparr>pool := rest, emitted := emitted e @ [TaskStart t, TaskFinish t v]\<rparr>))
           | None \<Rightarrow>
               seq_loop (dn @ [\<lparr>made_for = index t, state = Result v\<rparr>]) pd
                 (e\<lparr>pool := rest, emitted := emitted e @ [TaskStart t, TaskFinish t v]\<rparr>)))"
  using assms
  by (subst seq_loop.simps) (simp add: run_coro_running Let_def split: sum.splits option.splits)

lemma seq_loop_frame:
  "running e \<Longrightarrow> seq_loop dn pd e = (r, dn1, pd1, e1) \<Longrightarrow>
     running e1 \<and> return_exceptions e1 = return_exceptions e \<and> limit e1 = limit e \<and>
     throttler e1 = throttler e \<and> observer e1 = observer e"
proof (induction ts \<equiv> "pool e" arbitrary: e dn pd)
  case Nil
  then show ?case by (simp add: seq_loop_Nil)
next
  case (Cons t rest)
  have p: "pool e = t # rest" using Cons.hyps(2) by simp
  note u = seq_loop_Cons [OF p Cons.prems(1), of dn pd]
  show ?case
  proof (cases "safe_run (coro t) (return_exceptions e)")
    case (Inl err)
    with u Cons.prems show ?thesis by auto
  next
    case (Inr v)
    let ?e = "e\<lparr>pool := rest, emitted := emitted e @ [TaskStart t, TaskFinish t v]\<rparr>"
    have ih: "seq_loop dn' pd ?e = (r, dn1, pd1, e1) \<Longrightarrow> ?thesis" for dn'
      using Cons.hyps(1) [of ?e dn' pd] Cons.prems(1) by simp
    show ?thesis
    proof (cases "exception_instance v")
      case None
      with u Inr Cons.prems(2) ih show ?thesis by simp
    next
      case (Some x)
      show ?thesis
      proof (cases "return_exceptions e")
        case True
        with u Inr Some Cons.prems(2) ih show ?thesis by simp
      next
        case False
        with u Inr Some Cons.prems show ?thesis by auto
      qed
    qed
  qed
qed

lemma seq_loop_trace:
  "running e \<Longrightarrow> seq_loop dn pd e = (r, dn1, pd1, e1) \<Longrightarrow>
     \<exists>tr. emitted e1 = emitted e @ tr \<and> fifo None tr \<and>
          (\<exists>k. started tr = take k (pool e)) \<and>
          (r = None \<longrightarrow> started tr = pool e \<and> pool e1 = [])"
proof (induction ts \<equiv> "pool e" arbitrary: e dn pd)
  case Nil
  then have "emitted e1 = emitted e @ [] \<and> fifo None [] \<and>
      (\<exists>k. started [] = take k (pool e)) \<and>
      (r = None \<longrightarrow> started [] = pool e \<and> pool e1 = [])"
    by (simp add: seq_loop_Nil)
  then show ?case by blast
next
  case (Cons t rest)
  have p: "pool e = t # rest" using Cons.hyps(2) by simp
  have one: "started [TaskStart t] = take 1 (pool e)"
    "started [TaskStart t, TaskFinish t v] = take 1 (pool e)" for v
    using p by simp_all
  note u = seq_loop_Cons [OF p Cons.prems(1), of dn pd]
  show ?case
  proof (cases "safe_run (coro t) (return_exceptions e)")
    case (Inl err)
    with u Cons.prems
    have "emitted e1 = emitted e @ [TaskStart t] \<and> fifo None [TaskStart t] \<and> r \<noteq> None"
      by auto
    with one(1) show ?thesis by blast
  next
    case (Inr v)
    let ?e = "e\<lparr>pool := rest, emitted := emitted e @ [TaskStart t, TaskFinish t v]\<rparr>"
    have stop: ?thesis if "e1 = ?e" and "r \<noteq> None"
    proof -
      have "emitted e1 = emitted e @ [TaskStart t, TaskFinish t v] \<and>
            fifo None [TaskStart t, TaskFinish t v]"
        using that by simp
      with one(2) that(2) show ?thesis by blast
    qed
    have ih: ?thesis if "seq_loop dn' pd ?e = (r, dn1, pd1, e1)" for dn'
    proof -
      have "\<exists>tr. emitted e1 = emitted ?e @ tr \<and> fifo None tr \<and>
              (\<exists>k. started tr = take k (pool ?e)) \<and>
              (r = None \<longrightarrow> started tr = pool ?e \<and> pool e1 = [])"
        by (rule Cons.hyps(1) [of ?e dn' pd]) (use Cons.prems(1) that in simp_all)
      then obtain tr k where tr: "emitted e1 = emitted ?e @ tr" "fifo None tr"
         "started tr = take k (pool ?e)" "r = None \<longrightarrow> started tr = pool ?e \<and> pool e1 = []"
        by blast
      let ?tr = "TaskStart t # TaskFinish t v # tr"
      have "emitted e1 = emitted e @ ?tr" using tr(1) by simp
      moreover have "fifo None ?tr" using tr(2) by simp
      moreover have "started ?tr = take (Suc k) (pool e)" using tr(3) p by simp
      moreover have "r = None \<longrightarrow> started ?tr = pool e \<and> pool e1 = []" using tr(4) p by simp
      ultimately show ?thesis by blast
    qed
    show ?thesis
    proof (cases "exception_instance v")
      case None
      with u Inr Cons.prems(2) ih show ?thesis by simp
    next
      case (Some x)
      show ?thesis
      proof (cases "return_exceptions e")
        case True
        with u Inr Some Cons.prems(2) ih show ?thesis by simp
      next
        case False
        with u Inr Some Cons.prems(2) stop show ?thesis by auto
      qed
    qed
  qed
qed

lemma fifo_snoc_Finish: "fifo cur (xs @ [Finish]) = fifo cur xs"
proof (induction xs arbitrary: cur)
  case Nil
  show ?case by simp
next
  case (Cons ev xs)
  then show ?case by (cases ev) simp_all
qed

lemma started_snoc_Finish: "started (xs @ [Finish]) = started xs"
proof (induction xs)
  case Nil
  show ?case by simp
next
  case (Cons ev xs)
  then show ?case by (cases ev) simp_all
qed

lemma run_end_emitted:
  "run_end dp e = (Inr dp, e\<lparr>running := False, emitted := emitted e @ [Finish], pool := [],
      observer := [], throttler := limit e\<rparr>)"
  by (simp add: run_end_def reset_def trigger_def observer_clear_def Semaphore_def)

text \<open>
  Claim C5. With the limit 1 every call of \<^verbatim>\<open>run\<close> returns or raises, and the
  notifications it adds run the tasks strictly one after the other: a
  \<^verbatim>\<open>task.start\<close> is emitted only when the \<^verbatim>\<open>task.finish\<close> of the task
  started before it has been emitted, and the started tasks have strictly increasing
  indices. The queue is one built by submissions (indices \<open>0, 1, ...\<close>). A call that
  returns has started every task of the queue, in queue order.
\<close>

theorem sequential_fifo:
  assumes "limit e = 1" and "map index (pool e) = [0..<length (pool e)]"
  shows "\<exists>res e1 tr. run pick ret_exc e = Some (res, e1) \<and> emitted e1 = emitted e @ tr \<and>
           fifo None tr \<and> sorted_wrt (<) (map index (started tr)) \<and>
           (\<forall>dp. res = Inr dp \<longrightarrow> started tr = pool e)"
proof (cases "running e \<or> pool e = []")
  case True
  then have "\<exists>res. run pick ret_exc e = Some (res, e) \<and> emitted e = emitted e @ [] \<and>
           fifo None [] \<and> sorted_wrt (<) (map index (started [])) \<and>
           (\<forall>dp. res = Inr dp \<longrightarrow> started [] = pool e)"
    by (auto simp: run_def)
  then show ?thesis by blast
next
  case False
  define e3 where "e3 = run_begin ret_exc e"
  have e3: "running e3" "pool e3 = pool e" "emitted e3 = emitted e @ [Start]" "limit e3 = 1"
    using assms(1) by (simp_all add: e3_def run_begin_def trigger_def Let_def split: option.splits)
  have r: "run pick ret_exc e =
     (case run_sequentially e3 of
        (Inl err, e4) \<Rightarrow> Some (Inl err, e4)
      | (Inr dp, e4) \<Rightarrow> Some (run_end dp e4))"
    using False e3(4) by (simp add: run_def e3_def [symmetric] Let_def)
  obtain r0 dn pd e4 where sl: "seq_loop [] [] e3 = (r0, dn, pd, e4)"
    by (cases "seq_loop [] [] e3") auto
  from seq_loop_trace [OF e3(1) sl] obtain tr k where
    tr: "emitted e4 = emitted e3 @ tr" "fifo None tr" "started tr = take k (pool e3)"
        "r0 = None \<longrightarrow> started tr = pool e3 \<and> pool e4 = []"
    by blast
  have srt: "sorted_wrt (<) (map index (started tr))"
  proof -
    have "map index (started tr) = take k (map index (pool e))"
      using tr(3) e3(2) by (simp add: take_map)
    then have "map index (started tr) = take k [0..<length (pool e)]"
      using assms(2) by simp
    moreover have "sorted_wrt (<) (take k [0..<length (pool e)])"
      by (rule sorted_wrt_take) simp
    ultimately show ?thesis by simp
  qed
  show ?thesis
  proof (cases r0)
    case None
    let ?e5 = "e4\<lparr>running := False, emitted := emitted e4 @ [Finish], pool := [],
           observer := [], throttler := limit e4\<rparr>"
    let ?tr = "Start # tr @ [Finish]"
    have st: "started ?tr = started tr"
      using started_snoc_Finish [of tr] by simp
    show ?thesis
    proof (intro exI conjI)
      show "run pick ret_exc e = Some (Inr (dn, pd), ?e5)"
        using r sl None by (simp add: run_sequentially_def run_end_emitted)
      show "emitted ?e5 = emitted e @ ?tr"
        using tr(1) e3(3) by simp
      show "fifo None ?tr"
        using tr(2) fifo_snoc_Finish [of None tr] by simp
      show "sorted_wrt (<) (map index (started ?tr))"
        using srt st by simp
      show "\<forall>dp. Inr (dn, pd) = Inr dp \<longrightarrow> started ?tr = pool e"
        using tr(4) None e3(2) st by simp
    qed
  next
    case (Some err)
    show ?thesis
    proof (intro exI conjI)
      show "run pick ret_exc e = Some (Inl err, e4)"
        using r sl Some by (simp add: run_sequentially_def)
      show "emitted e4 = emitted e @ (Start # tr)"
        using tr(1) e3(3) by simp
      show "fifo None (Start # tr)"
        using tr(2) by simp
      show "sorted_wrt (<) (map index (started (Start # tr)))"
        using srt by simp
      show "\<forall>dp. Inl err = Inr dp \<longrightarrow> started (Start # tr) = pool e"
        by simp
    qed
  qed
qed

text \<open>Two tasks under the limit 1: both start, in order, one after the other.\<close>

theorem sequential_fifo_witness:
  "limit \<lparr>running = False, return_exceptions = False, limit = 1,
      pool = [\<lparr>index = 0, coro = Returns (PInt 10)\<rparr>, \<lparr>index = 1, coro = Returns (PInt 11)\<rparr>],
      observer = [], throttler = 1, emitted = []\<rparr> = 1 \<and>
   (\<exists>res e1 tr.
      run (\<lambda>s. 0) None \<lparr>running = False, return_exceptions = False, limit = 1,
        pool = [\<lparr>index = 0, coro = Returns (PInt 10)\<rparr>, \<lparr>index = 1, coro = Returns (PInt 11)\<rparr>],
        observer = [], throttler = 1, emitted = []\<rparr> = Some (res, e1) \<and>
      emitted e1 = tr \<and> fifo None tr \<and> sorted_wrt (<) (map index (started tr)) \<and>
      started tr = [\<lparr>index = 0, coro = Returns (PInt 10)\<rparr>, \<lparr>index = 1, coro = Returns (PInt 11)\<rparr>])"
proof -
  let ?e = "\<lparr>running = False, return_exceptions = False, limit = 1,
      pool = [\<lparr>index = 0, coro = Returns (PInt 10)\<rparr>, \<lparr>index = 1, coro = Returns (PInt 11)\<rparr>],
      observer = [], throttler = 1, emitted = []\<rparr>"
  have h1: "limit ?e = 1" by simp
  have h2: "map index (pool ?e) = [0..<length (pool ?e)]" by (simp add: upt_rec)
  have ok: "\<exists>dp e1. run (\<lambda>s. 0) None ?e = Some (Inr dp, e1)"
    by (simp add: run_def run_begin_def run_sequentially_def seq_loop.simps run_coro_def run_coro_rest_def
        safe_run_def trigger_def run_end_def reset_def Let_def)
  from sequential_fifo [OF h1 h2, of "\<lambda>s. 0" None] obtain res e1 tr where
    x: "run (\<lambda>s. 0) None ?e = Some (res, e1)" "emitted e1 = emitted ?e @ tr" "fifo None tr"
       "sorted_wrt (<) (map index (started tr))" "\<forall>dp. res = Inr dp \<longrightarrow> started tr = pool ?e"
    by blast
  from ok x(1) obtain dp where "res = Inr dp" by auto
  with x(5) have "started tr = pool ?e" by blast
  with x show ?thesis by simp
qed

section \<open>A failing task under the sequential strategy\<close>

text \<open>
  Claim C3, as amended. Limit 1, \<open>return_exceptions\<close> false (given so, or omitted on
  an executor whose flag is false), three queued tasks of which the first returns a value
  that is no exception and the second raises \<open>err\<close>. Then \<^verbatim>\<open>run\<close> raises
  \<open>err\<close> to its caller; when the loop is left its list \<open>done\<close> holds the future
  of task 0 with its result and its list \<open>pending\<close> holds one future, the unresolved
  one made for the failing task 1; task 2 has not started: the notifications added are
  \<^verbatim>\<open>start\<close>, the start and finish of task 0 and the start of task 1.
\<close>

theorem sequential_abort:
  assumes "limit e = 1" and "\<not> running e" and "pool e = [t0, t1, t2]"
    and "coro t0 = Returns v0" and "exception_instance v0 = None"
    and "coro t1 = Raises err"
    and "ret_exc = Some False \<or> (ret_exc = None \<and> \<not> return_exceptions e)"
  shows "\<exists>e1. seq_loop [] [] (run_begin ret_exc e) =
             (Some err, [\<lparr>made_for = index t0, state = Result v0\<rparr>],
              [\<lparr>made_for = index t1, state = Pending\<rparr>], e1) \<and>
           run pick ret_exc e = Some (Inl err, e1) \<and>
           emitted e1 = emitted e @ [Start, TaskStart t0, TaskFinish t0 v0, TaskStart t1]"
proof -
  define e0 where "e0 = run_begin ret_exc e"
  have e0: "running e0" "pool e0 = [t0, t1, t2]" "\<not> return_exceptions e0"
    "emitted e0 = emitted e @ [Start]" "limit e0 = 1"
    using assms(1,3,7) by (auto simp: e0_def run_begin_def trigger_def Let_def)
  define ea where "ea = e0\<lparr>pool := [t1, t2], emitted := emitted e0 @ [TaskStart t0, TaskFinish t0 v0]\<rparr>"
  define e1 where "e1 = ea\<lparr>pool := [t2], emitted := emitted ea @ [TaskStart t1]\<rparr>"
  have s0: "safe_run (coro t0) (return_exceptions e0) = Inr v0"
    using assms(4) by (simp add: safe_run_def)
  have first: "seq_loop [] [] e0 = seq_loop [\<lparr>made_for = index t0, state = Result v0\<rparr>] [] ea"
    using seq_loop_Cons [OF e0(2) e0(1), of "[]" "[]"] s0 assms(5) by (simp add: ea_def)
  have ea: "running ea" "pool ea = [t1, t2]" "\<not> return_exceptions ea"
    using e0 by (simp_all add: ea_def)
  have s1: "safe_run (coro t1) (return_exceptions ea) = Inl err"
    using assms(6) ea(3) by (simp add: safe_run_def)
  have second: "seq_loop [\<lparr>made_for = index t0, state = Result v0\<rparr>] [] ea =
      (Some err, [\<lparr>made_for = index t0, state = Result v0\<rparr>],
       [\<lparr>made_for = index t1, state = Pending\<rparr>], e1)"
    using seq_loop_Cons [OF ea(2) ea(1), of "[\<lparr>made_for = index t0, state = Result v0\<rparr>]" "[]"] s1
    by (simp add: e1_def)
  have sl: "seq_loop [] [] e0 =
      (Some err, [\<lparr>made_for = index t0, state = Result v0\<rparr>],
       [\<lparr>made_for = index t1, state = Pending\<rparr>], e1)"
    using first second by simp
  have r: "run pick ret_exc e = Some (Inl err, e1)"
    using assms(2,3) e0(5) sl
    by (simp add: run_def run_sequentially_def Let_def e0_def [symmetric])
  have e1: "emitted e1 = emitted e @ [Start, TaskStart t0, TaskFinish t0 v0, TaskStart t1]"
    using e0 by (simp add: e1_def ea_def)
  show ?thesis
    using sl r e1 unfolding e0_def by blast
qed

text \<open>The scenario with the results 10 and 12 and the error \<open>TaskError ''boom''\<close>.\<close>

theorem sequential_abort_witness:
  "\<exists>e1. run (\<lambda>s. 0) None
      \<lparr>running = False, return_exceptions = False, limit = 1,
      pool = [\<lparr>index = 0, coro = Returns (PInt 10)\<rparr>,
              \<lparr>index = 1, coro = Raises (TaskError ''boom'')\<rparr>,
              \<lparr>index = 2, coro = Returns (PInt 12)\<rparr>],
      observer = [], throttler = 1, emitted = []\<rparr> = Some (Inl (TaskError ''boom''), e1) \<and>
      emitted e1 = [Start, TaskStart \<lparr>index = 0, coro = Returns (PInt 10)\<rparr>,
                 TaskFinish \<lparr>index = 0, coro = Returns (PInt 10)\<rparr> (PInt 10),
                 TaskStart \<lparr>index = 1, coro = Raises (TaskError ''boom'')\<rparr>]"
proof -
  let ?e = "\<lparr>running = False, return_exceptions = False, limit = 1,
      pool = [\<lparr>index = 0, coro = Returns (PInt 10)\<rparr>,
              \<lparr>index = 1, coro = Raises (TaskError ''boom'')\<rparr>,
              \<lparr>index = 2, coro = Returns (PInt 12)\<rparr>],
      observer = [], throttler = 1, emitted = []\<rparr>"
  have "\<exists>e1. seq_loop [] [] (run_begin None ?e) =
             (Some (TaskError ''boom''),
              [\<lparr>made_for = index \<lparr>index = 0, coro = Returns (PInt 10)\<rparr>, state = Result (PInt 10)\<rparr>],
              [\<lparr>made_for = index \<lparr>index = 1, coro = Raises (TaskError ''boom'')\<rparr>, state = Pending\<rparr>], e1) \<and>
           run (\<lambda>s. 0) None ?e = Some (Inl (TaskError ''boom''), e1) \<and>
           emitted e1 = emitted ?e @ [Start, TaskStart \<lparr>index = 0, coro = Returns (PInt 10)\<rparr>,
              TaskFinish \<lparr>index = 0, coro = Returns (PInt 10)\<rparr> (PInt 10),
              TaskStart \<lparr>index = 1, coro = Raises (TaskError ''boom'')\<rparr>]"
    by (rule sequential_abort) simp_all
  then show ?thesis by auto
qed

text \<open>
  Claim C3 as stated fails in its last part, that the remaining queue is abandoned in
  \<open>pending\<close>: in the scenario, the loop is left with \<open>pending\<close> holding only the
  future made for task 1, the task that failed; the task that remains, task 2, has no
  future there, it stays in the executor's pool.
\<close>

theorem pending_holds_failing_task_counterexample:
  "seq_loop [] []
     \<lparr>running = True, return_exceptions = False, limit = 1,
      pool = [\<lparr>index = 0, coro = Returns (PInt 10)\<rparr>,
              \<lparr>index = 1, coro = Raises (TaskError ''boom'')\<rparr>,
              \<lparr>index = 2, coro = Returns (PInt 12)\<rparr>],
      observer = [], throttler = 1, emitted = [Start]\<rparr> =
     (Some (TaskError ''boom''),
      [\<lparr>made_for = 0, state = Result (PInt 10)\<rparr>],
      [\<lparr>made_for = 1, state = Pending\<rparr>],
      \<lparr>running = True, return_exceptions = False, limit = 1,
      pool = [\<lparr>index = 2, coro = Returns (PInt 12)\<rparr>],
      observer = [], throttler = 1,
      emitted = [Start, TaskStart \<lparr>index = 0, coro = Returns (PInt 10)\<rparr>,
                 TaskFinish \<lparr>index = 0, coro = Returns (PInt 10)\<rparr> (PInt 10),
                 TaskStart \<lparr>index = 1, coro = Raises (TaskError ''boom'')\<rparr>]\<rparr>) \<and>
   \<not> (\<forall>t \<in> set (pool \<lparr>running = True, return_exceptions = False, limit = 1,
      pool = [\<lparr>index = 2, coro = Returns (PInt 12)\<rparr>],
      observer = [], throttler = 1,
      emitted = [Start, TaskStart \<lparr>index = 0, coro = Returns (PInt 10)\<rparr>,
                 TaskFinish \<lparr>index = 0, coro = Returns (PInt 10)\<rparr> (PInt 10),
                 TaskStart \<lparr>index = 1, coro = Raises (TaskError ''boom'')\<rparr>]\<rparr>).
        \<exists>f \<in> set [\<lparr>made_for = 1, state = Pending\<rparr>]. made_for f = index t)"
  by (simp add: run_def run_begin_def run_sequentially_def seq_loop.simps run_coro_def run_coro_rest_def
        safe_run_def trigger_def Let_def)

text \<open>
  Claim C2 at the same input. The exception leaves \<^verbatim>\<open>run\<close> before the lines that
  clear the running flag and call \<^verbatim>\<open>reset\<close>: afterwards the executor is still
  running and task 2 is still queued, and a new submission followed by \<^verbatim>\<open>run\<close>
  is refused with \<^verbatim>\<open>RuntimeError('executor is already running')\<close>.
\<close>

theorem abort_leaves_executor_running:
  "run (\<lambda>s. 0) None
     \<lparr>running = False, return_exceptions = False, limit = 1,
      pool = [\<lparr>index = 0, coro = Returns (PInt 10)\<rparr>,
              \<lparr>index = 1, coro = Raises (TaskError ''boom'')\<rparr>,
              \<lparr>index = 2, coro = Returns (PInt 12)\<rparr>],
      observer = [], throttler = 1, emitted = []\<rparr> =
     Some (Inl (TaskError ''boom''),
      \<lparr>running = True, return_exceptions = False, limit = 1,
      pool = [\<lparr>index = 2, coro = Returns (PInt 12)\<rparr>],
      observer = [], throttler = 1,
      emitted = [Start, TaskStart \<lparr>index = 0, coro = Returns (PInt 10)\<rparr>,
                 TaskFinish \<lparr>index = 0, coro = Returns (PInt 10)\<rparr> (PInt 10),
                 TaskStart \<lparr>index = 1, coro = Raises (TaskError ''boom'')\<rparr>]\<rparr>) \<and>
   run (\<lambda>s. 0) None (snd (add (Coroutine (Returns PNone)) []
      \<lparr>running = True, return_exceptions = False, limit = 1,
      pool = [\<lparr>index = 2, coro = Returns (PInt 12)\<rparr>],
      observer = [], throttler = 1,
      emitted = [Start, TaskStart \<lparr>index = 0, coro = Returns (PInt 10)\<rparr>,
                 TaskFinish \<lparr>index = 0, coro = Returns (PInt 10)\<rparr> (PInt 10),
                 TaskStart \<lparr>index = 1, coro = Raises (TaskError ''boom'')\<rparr>]\<rparr>)) =
     Some (Inl (RuntimeError ''executor is already running''),
      \<lparr>running = True, return_exceptions = False, limit = 1,
      pool = [\<lparr>index = 2, coro = Returns (PInt 12)\<rparr>,
              \<lparr>index = 1, coro = Returns PNone\<rparr>],
      observer = [], throttler = 1,
      emitted = [Start, TaskStart \<lparr>index = 0, coro = Returns (PInt 10)\<rparr>,
                 TaskFinish \<lparr>index = 0, coro = Returns (PInt 10)\<rparr> (PInt 10),
                 TaskStart \<lparr>index = 1, coro = Raises (TaskError ''boom'')\<rparr>]\<rparr>)"
  by (simp add: add_def run_def run_begin_def run_sequentially_def seq_loop.simps run_coro_def run_coro_rest_def
        safe_run_def trigger_def Let_def)

section \<open>What a cycle leaves unchanged\<close>

lemma step_job_frame:
  "step_job w p e = (p1, e1) \<Longrightarrow>
     running e1 = running e \<and> return_exceptions e1 = return_exceptions e \<and>
     limit e1 = limit e \<and> pool e1 = pool e \<and> observer e1 = observer e"
  by (cases w; cases p)
     (auto simp: trigger_def run_coro_rest_def Let_def split: if_splits sum.splits prod.splits)

lemma advance_frame:
  "running (exec (advance i s)) = running (exec s) \<and>
   return_exceptions (exec (advance i s)) = return_exceptions (exec s) \<and>
   limit (exec (advance i s)) = limit (exec s) \<and> pool (exec (advance i s)) = pool (exec s) \<and>
   observer (exec (advance i s)) = observer (exec s) \<and>
   map fst (jobs (advance i s)) = map fst (jobs s)"
proof (cases "i < length (jobs s)")
  case False
  then show ?thesis by (simp add: advance_def)
next
  case True
  obtain w p where wp: "jobs s ! i = (w, p)" by (cases "jobs s ! i")
  obtain p1 e1 where st: "step_job w p (exec s) = (p1, e1)" by (cases "step_job w p (exec s)")
  have "map fst ((jobs s)[i := (w, p1)]) = map fst (jobs s)"
    using True wp by (simp add: map_update list_update_same_conv)
  with step_job_frame [OF st] True wp st show ?thesis
    by (simp add: advance_def)
qed

lemma wait_all_frame:
  "wait_all pick s = Some s1 \<Longrightarrow>
     running (exec s1) = running (exec s) \<and>
     return_exceptions (exec s1) = return_exceptions (exec s) \<and>
     limit (exec s1) = limit (exec s) \<and> pool (exec s1) = pool (exec s) \<and>
     observer (exec s1) = observer (exec s) \<and>
     map fst (jobs s1) = map fst (jobs s) \<and> list_all is_completed (jobs s1)"
proof (induction pick s rule: wait_all.induct)
  case (1 pick s)
  show ?case
  proof (cases "list_all is_completed (jobs s)")
    case True
    with "1.prems" show ?thesis by (simp add: wait_all.simps)
  next
    case False
    show ?thesis
    proof (cases "ready s")
      case Nil
      with False "1.prems" show ?thesis by (simp add: wait_all.simps)
    next
      case (Cons r rs)
      let ?s = "advance ((r # rs) ! (pick s mod length (r # rs))) s"
      have "wait_all pick ?s = Some s1"
        using "1.prems" False Cons by (subst (asm) wait_all.simps) simp
      from "1.IH" [OF False Cons this] advance_frame [of "(r # rs) ! (pick s mod length (r # rs))" s]
      show ?thesis by simp
    qed
  qed
qed

lemma run_begin_fields:
  "running (run_begin r e) \<and> pool (run_begin r e) = pool e \<and> limit (run_begin r e) = limit e \<and>
   throttler (run_begin r e) = throttler e \<and> emitted (run_begin r e) = emitted e @ [Start] \<and>
   return_exceptions (run_begin r e) = (case r of None \<Rightarrow> return_exceptions e | Some b \<Rightarrow> b)"
  by (simp add: run_begin_def trigger_def Let_def split: option.splits)

lemma run_begin_omitted: "run_begin None e = run_begin (Some (return_exceptions e)) e"
  by (simp add: run_begin_def Let_def)

lemma run_end_fields:
  "run_end dp e = (r, e1) \<Longrightarrow>
     r = Inr dp \<and> \<not> running e1 \<and> pool e1 = [] \<and> observer e1 = [] \<and> throttler e1 = limit e \<and>
     limit e1 = limit e \<and> return_exceptions e1 = return_exceptions e \<and>
     emitted e1 = emitted e @ [Finish]"
  by (auto simp: run_end_emitted)

lemma run_sequentially_frame:
  assumes "running e" and "run_sequentially e = (r, e1)"
  shows "return_exceptions e1 = return_exceptions e"
proof -
  obtain r0 dn pd e4 where sl: "seq_loop [] [] e = (r0, dn, pd, e4)"
    by (cases "seq_loop [] [] e") auto
  from assms(2) sl have "e1 = e4" by (cases r0) (simp_all add: run_sequentially_def)
  with seq_loop_frame [OF assms(1) sl] show ?thesis by simp
qed

lemma run_concurrently_frame:
  assumes "run_concurrently pick e = Some (r, e1)"
  shows "return_exceptions e1 = return_exceptions e"
proof (cases "pool e")
  case Nil
  with assms show ?thesis by (auto simp: run_concurrently_def concurrent_loop_eq)
next
  case (Cons t ts)
  let ?coros = "map (if limit e \<le> 0 then RunCoro else ScheduleCoro) (pool e)"
  from assms Cons obtain s where w: "wait_all pick (waiting ?coros (e\<lparr>pool := []\<rparr>)) = Some s"
    and e1: "e1 = exec s"
    by (auto simp: run_concurrently_def concurrent_loop_eq split: option.splits)
  from wait_all_frame [OF w] e1 show ?thesis by (simp add: waiting_def)
qed

lemma run_return_exceptions:
  assumes "run pick r e = Some (res, e1)"
  shows "return_exceptions e1 =
     (if running e \<or> pool e = [] then return_exceptions e
      else case r of None \<Rightarrow> return_exceptions e | Some b \<Rightarrow> b)"
proof (cases "running e \<or> pool e = []")
  case True
  with assms have "e1 = e" by (auto simp: run_def split: if_splits)
  with True show ?thesis by simp
next
  case False
  note b = run_begin_fields [of r e]
  show ?thesis
  proof (cases "limit e = 1")
    case True
    obtain r0 e4 where rs: "run_sequentially (run_begin r e) = (r0, e4)"
      by (cases "run_sequentially (run_begin r e)")
    have f: "return_exceptions e4 = return_exceptions (run_begin r e)"
      using run_sequentially_frame [OF _ rs] b by simp
    show ?thesis
    proof (cases r0)
      case (Inl err)
      with assms False True rs b have "e1 = e4" by (simp add: run_def Let_def)
      with f b False show ?thesis by simp
    next
      case (Inr dp)
      with assms False True rs b have "run_end dp e4 = (res, e1)" by (simp add: run_def Let_def)
      from run_end_fields [OF this] f b False show ?thesis by simp
    qed
  next
    case ne: False
    from assms False ne b obtain r0 e4 where
      rc: "run_concurrently pick (run_begin r e) = Some (r0, e4)"
      by (auto simp: run_def Let_def split: option.splits)
    have f: "return_exceptions e4 = return_exceptions (run_begin r e)"
      using run_concurrently_frame [OF rc] .
    show ?thesis
    proof (cases r0)
      case (Inl err)
      with assms False ne rc b have "e1 = e4" by (simp add: run_def Let_def)
      with f b False show ?thesis by simp
    next
      case (Inr dp)
      with assms False ne rc b have "run_end dp e4 = (res, e1)" by (simp add: run_def Let_def)
      from run_end_fields [OF this] f b False show ?thesis by simp
    qed
  qed
qed

lemma run_omitted: "run pick None e = run pick (Some (return_exceptions e)) e"
  by (simp add: run_def run_begin_omitted [of e])

lemma extend_pool_frame:
  "extend_pool cs e = (r, e1) \<Longrightarrow>
     limit e1 = limit e \<and> throttler e1 = throttler e \<and> running e1 = running e \<and>
     return_exceptions e1 = return_exceptions e"
proof (induction cs arbitrary: e)
  case Nil
  then show ?case by simp
next
  case (Cons c cs)
  show ?case
  proof (cases "add c [] e")
    case (Pair r0 e2)
    show ?thesis
    proof (cases r0)
      case (Inl err)
      with Pair Cons.prems add_Inl [of c "[]" e err e2] show ?thesis by simp
    next
      case (Inr co)
      with Pair Cons.prems have "extend_pool cs e2 = (r, e1)" by simp
      from Cons.IH [OF this] Pair Inr show ?thesis
        by (cases c) (auto simp: add_Coroutine add_CoroutineFunction add_Other)
    qed
  qed
qed

text \<open>
  Claim C10. The constructor sets \<open>return_exceptions\<close> to false; \<^verbatim>\<open>reset\<close>
  never changes it. A \<^verbatim>\<open>run\<close> that is given the argument and starts a cycle leaves
  the executor with the flag equal to the argument, however the cycle ends, also after the
  reset at its end, and after any later submissions a \<^verbatim>\<open>run\<close> that omits the
  argument behaves exactly as one that passes the earlier value again.
\<close>

theorem return_exceptions_persists:
  "return_exceptions (snd (reset e)) = return_exceptions e \<and>
   (\<forall>lim coros e0. ConcurrentExecutor lim coros = Inr e0 \<longrightarrow> \<not> return_exceptions e0) \<and>
   (\<not> running e \<and> pool e \<noteq> [] \<and> run pick (Some b) e = Some (res, e1) \<longrightarrow>
      return_exceptions e1 = b \<and>
      return_exceptions (snd (reset e1)) = b \<and>
      (\<forall>items u e2 pick2. extend_pool items e1 = (u, e2) \<longrightarrow>
         return_exceptions e2 = b \<and> run pick2 None e2 = run pick2 (Some b) e2))"
proof -
  have r: "return_exceptions (snd (reset x)) = return_exceptions x" for x
    by (simp add: reset_def)
  have c: "\<not> return_exceptions e0" if "ConcurrentExecutor lim coros = Inr e0" for lim coros e0
    using ConcurrentExecutor_fields [OF that] by simp
  have p: "return_exceptions e1 = b \<and> return_exceptions (snd (reset e1)) = b \<and>
      (\<forall>items u e2 pick2. extend_pool items e1 = (u, e2) \<longrightarrow>
         return_exceptions e2 = b \<and> run pick2 None e2 = run pick2 (Some b) e2)"
    if "\<not> running e" "pool e \<noteq> []" "run pick (Some b) e = Some (res, e1)"
  proof -
    have b: "return_exceptions e1 = b"
      using run_return_exceptions [OF that(3)] that(1,2) by simp
    have "return_exceptions e2 = b \<and> run pick2 None e2 = run pick2 (Some b) e2"
      if "extend_pool items e1 = (u, e2)" for items u e2 pick2
    proof -
      have "return_exceptions e2 = b" using extend_pool_frame [OF that] b by simp
      with run_omitted [of pick2 e2] show ?thesis by simp
    qed
    with b r show ?thesis by blast
  qed
  from r c p show ?thesis by blast
qed

text \<open>
  A cycle run with \<open>return_exceptions = True\<close> on a new executor: the flag is still
  true after the cycle and after a reset, and the next run without the argument is the run
  with \<open>True\<close>.
\<close>

theorem return_exceptions_persists_witness:
  "run (\<lambda>s. 0) (Some True)
      \<lparr>running = False, return_exceptions = False, limit = 1,
        pool = [\<lparr>index = 0, coro = Raises (TaskError ''boom'')\<rparr>],
        observer = [], throttler = 1, emitted = []\<rparr> =
     Some (Inr ([\<lparr>made_for = 0, state = Exception (TaskError ''boom'')\<rparr>], []),
      \<lparr>running = False, return_exceptions = True, limit = 1, pool = [],
        observer = [], throttler = 1,
        emitted = [Start, TaskStart \<lparr>index = 0, coro = Raises (TaskError ''boom'')\<rparr>,
                   TaskFinish \<lparr>index = 0, coro = Raises (TaskError ''boom'')\<rparr>
                     (PExc (TaskError ''boom'')), Finish]\<rparr>) \<and>
   return_exceptions (snd (reset
      \<lparr>running = False, return_exceptions = True, limit = 1, pool = [],
        observer = [], throttler = 1,
        emitted = [Start, TaskStart \<lparr>index = 0, coro = Raises (TaskError ''boom'')\<rparr>,
                   TaskFinish \<lparr>index = 0, coro = Raises (TaskError ''boom'')\<rparr>
                     (PExc (TaskError ''boom'')), Finish]\<rparr>)) = True \<and>
   run (\<lambda>s. 0) None (snd (extend_pool [Coroutine (Raises (TaskError ''again''))]
      \<lparr>running = False, return_exceptions = True, limit = 1, pool = [],
        observer = [], throttler = 1,
        emitted = [Start, TaskStart \<lparr>index = 0, coro = Raises (TaskError ''boom'')\<rparr>,
                   TaskFinish \<lparr>index = 0, coro = Raises (TaskError ''boom'')\<rparr>
                     (PExc (TaskError ''boom'')), Finish]\<rparr>)) =
   run (\<lambda>s. 0) (Some True) (snd (extend_pool [Coroutine (Raises (TaskError ''again''))]
      \<lparr>running = False, return_exceptions = True, limit = 1, pool = [],
        observer = [], throttler = 1,
        emitted = [Start, TaskStart \<lparr>index = 0, coro = Raises (TaskError ''boom'')\<rparr>,
                   TaskFinish \<lparr>index = 0, coro = Raises (TaskError ''boom'')\<rparr>
                     (PExc (TaskError ''boom'')), Finish]\<rparr>))"
proof -
  let ?e = "\<lparr>running = False, return_exceptions = False, limit = 1,
        pool = [\<lparr>index = 0, coro = Raises (TaskError ''boom'')\<rparr>],
        observer = [], throttler = 1, emitted = []\<rparr>"
  let ?e1 = "\<lparr>running = False, return_exceptions = True, limit = 1, pool = [],
        observer = [], throttler = 1,
        emitted = [Start, TaskStart \<lparr>index = 0, coro = Raises (TaskError ''boom'')\<rparr>,
                   TaskFinish \<lparr>index = 0, coro = Raises (TaskError ''boom'')\<rparr>
                     (PExc (TaskError ''boom'')), Finish]\<rparr>"
  let ?res = "Inr ([\<lparr>made_for = 0, state = Exception (TaskError ''boom'')\<rparr>], [])"
  let ?items = "[Coroutine (Raises (TaskError ''again''))]"
  have h: "\<not> running ?e \<and> pool ?e \<noteq> [] \<and> run (\<lambda>s. 0) (Some True) ?e = Some (?res, ?e1)"
    by (simp add: run_def run_begin_def run_sequentially_def seq_loop.simps run_coro_def
        run_coro_rest_def safe_run_def trigger_def run_end_def reset_def observer_clear_def
        Semaphore_def Let_def)
  have x: "extend_pool ?items ?e1 = (fst (extend_pool ?items ?e1), snd (extend_pool ?items ?e1))"
    by simp
  from return_exceptions_persists [of ?e "\<lambda>s. 0" True ?res ?e1] h x
  have "return_exceptions (snd (reset ?e1)) = True \<and>
        run (\<lambda>s. 0) None (snd (extend_pool ?items ?e1)) =
        run (\<lambda>s. 0) (Some True) (snd (extend_pool ?items ?e1))"
    by blast
  with h show ?thesis by blast
qed

section \<open>The concurrent wait: slots, progress and outcomes\<close>

lemma step_job_slot:
  "step_job w p e = (p1, e1) \<Longrightarrow> throttler e1 + slot (w, p1) = throttler e + slot (w, p)"
  by (cases w; cases p)
     (auto simp: trigger_def run_coro_rest_def Let_def split: if_splits sum.splits prod.splits)

lemma sum_list_map_update:
  fixes f :: "'a \<Rightarrow> nat"
  shows "i < length xs \<Longrightarrow> sum_list (map f (xs[i := y])) + f (xs ! i) = sum_list (map f xs) + f y"
proof (induction xs arbitrary: i)
  case Nil
  then show ?case by simp
next
  case (Cons x xs)
  then show ?case by (cases i) auto
qed

lemma advance_slots:
  "throttler (exec (advance i s)) + sum_list (map slot (jobs (advance i s))) =
   throttler (exec s) + sum_list (map slot (jobs s))"
proof (cases "i < length (jobs s)")
  case False
  then show ?thesis by (simp add: advance_def)
next
  case True
  obtain w p where wp: "jobs s ! i = (w, p)" by (cases "jobs s ! i")
  obtain p1 e1 where st: "step_job w p (exec s) = (p1, e1)" by (cases "step_job w p (exec s)")
  have "sum_list (map slot ((jobs s)[i := (w, p1)])) + slot (w, p) =
        sum_list (map slot (jobs s)) + slot (w, p1)"
    using sum_list_map_update [OF True, of slot "(w, p1)"] wp by simp
  with step_job_slot [OF st] True wp st show ?thesis
    by (simp add: advance_def)
qed

lemma step_job_settled:
  "running e \<Longrightarrow> settled (return_exceptions e) (w, p) \<Longrightarrow> step_job w p e = (p1, e1) \<Longrightarrow>
     settled (return_exceptions e) (w, p1)"
  by (cases w; cases p)
     (auto simp: trigger_def run_coro_rest_def Let_def split: if_splits sum.splits prod.splits)

lemma advance_settled:
  assumes "running (exec s)" and "list_all (settled (return_exceptions (exec s))) (jobs s)"
  shows "list_all (settled (return_exceptions (exec s))) (jobs (advance i s))"
proof (cases "i < length (jobs s)")
  case False
  with assms show ?thesis by (simp add: advance_def)
next
  case True
  obtain w p where wp: "jobs s ! i = (w, p)" by (cases "jobs s ! i")
  obtain p1 e1 where st: "step_job w p (exec s) = (p1, e1)" by (cases "step_job w p (exec s)")
  have "settled (return_exceptions (exec s)) (w, p)"
    using assms(2) True wp by (auto simp: list_all_length)
  from step_job_settled [OF assms(1) this st]
  have "list_all (settled (return_exceptions (exec s))) ((jobs s)[i := (w, p1)])"
    using assms(2) set_update_subset_insert [of "jobs s" i "(w, p1)"]
    by (auto simp: list_all_iff)
  with True wp st show ?thesis by (simp add: advance_def)
qed

lemma no_inflight_no_slot:
  "\<forall>j \<in> set js. snd j \<noteq> Inflight \<Longrightarrow> sum_list (map slot js) = 0"
proof (induction js)
  case Nil
  show ?case by simp
next
  case (Cons j js)
  obtain w p where "j = (w, p)" by (cases j)
  with Cons show ?case by (cases w; cases p) auto
qed

lemma ready_member:
  "k < length (jobs s) \<Longrightarrow> can_step (exec s) (jobs s ! k) \<Longrightarrow> ready s \<noteq> []"
proof -
  assume "k < length (jobs s)" and "can_step (exec s) (jobs s ! k)"
  then have "k \<in> set (ready s)" by (simp add: ready_def)
  then show ?thesis by auto
qed

lemma progress:
  assumes "throttler (exec s) + sum_list (map slot (jobs s)) = L"
    and "\<forall>j \<in> set (jobs s). \<forall>t. fst j = ScheduleCoro t \<longrightarrow> 0 < L"
    and "\<not> list_all is_completed (jobs s)"
  shows "ready s \<noteq> []"
proof (cases "\<exists>k < length (jobs s). snd (jobs s ! k) = Inflight")
  case True
  then obtain k where k: "k < length (jobs s)" "snd (jobs s ! k) = Inflight" by blast
  then have "can_step (exec s) (jobs s ! k)" by (cases "jobs s ! k") simp
  with k(1) show ?thesis by (rule ready_member)
next
  case False
  then have "\<forall>j \<in> set (jobs s). snd j \<noteq> Inflight"
    by (force simp: in_set_conv_nth)
  then have th: "throttler (exec s) = L"
    using assms(1) no_inflight_no_slot by simp
  from assms(3) obtain k where k: "k < length (jobs s)" "\<not> is_completed (jobs s ! k)"
    by (auto simp: list_all_length)
  obtain w p where wp: "jobs s ! k = (w, p)" by (cases "jobs s ! k")
  have p: "p = Waiting"
    using k wp False by (cases p) auto
  have "can_step (exec s) (jobs s ! k)"
  proof (cases w)
    case (RunCoro t)
    with wp p show ?thesis by simp
  next
    case (ScheduleCoro t)
    have "(w, p) \<in> set (jobs s)" using k(1) wp by (metis nth_mem)
    with assms(2) ScheduleCoro have "0 < L" by force
    with wp p ScheduleCoro th show ?thesis by simp
  qed
  with k(1) show ?thesis by (rule ready_member)
qed

lemma wait_all_total:
  assumes "running (exec s)"
    and "throttler (exec s) + sum_list (map slot (jobs s)) = L"
    and "\<forall>w \<in> set (map fst (jobs s)). \<forall>t. w = ScheduleCoro t \<longrightarrow> 0 < L"
    and "list_all (settled ret) (jobs s)" and "return_exceptions (exec s) = ret"
  shows "\<exists>s1. wait_all pick s = Some s1 \<and> list_all (settled ret) (jobs s1)"
  using assms
proof (induction pick s rule: wait_all.induct)
  case (1 pick s)
  show ?case
  proof (cases "list_all is_completed (jobs s)")
    case True
    with "1.prems"(4) show ?thesis by (simp add: wait_all.simps)
  next
    case False
    have "\<forall>j \<in> set (jobs s). \<forall>t. fst j = ScheduleCoro t \<longrightarrow> 0 < L"
      using "1.prems"(3) by auto
    from progress [OF "1.prems"(2) this False]
    obtain r rs where Cons: "ready s = r # rs" by (cases "ready s") auto
    let ?k = "(r # rs) ! (pick s mod length (r # rs))"
    let ?s = "advance ?k s"
    note f = advance_frame [of ?k s]
    have a: "running (exec ?s)" using f "1.prems"(1) by simp
    have b: "throttler (exec ?s) + sum_list (map slot (jobs ?s)) = L"
      using advance_slots [of ?k s] "1.prems"(2) by simp
    have c: "\<forall>w \<in> set (map fst (jobs ?s)). \<forall>t. w = ScheduleCoro t \<longrightarrow> 0 < L"
      using f "1.prems"(3) by simp
    have d: "list_all (settled ret) (jobs ?s)"
      using advance_settled [OF "1.prems"(1), of ?k] "1.prems"(4,5) by simp
    have e: "return_exceptions (exec ?s) = ret" using f "1.prems"(5) by simp
    have "wait_all pick s = wait_all pick ?s"
      using False Cons by (subst wait_all.simps) simp
    with "1.IH" [OF False Cons a b c d e] show ?thesis by simp
  qed
qed

lemma settled_futures:
  "list_all is_completed js \<Longrightarrow> list_all (settled ret) js \<Longrightarrow>
     map job_future js = map (\<lambda>w. task_future ret (wrapped_task w)) (map fst js)"
proof (induction js)
  case Nil
  show ?case by simp
next
  case (Cons j js)
  obtain w p where j: "j = (w, p)" by (cases j)
  with Cons.prems obtain r where p: "p = Completed r" by (cases p) auto
  with Cons.prems j have r: "r = safe_run (coro (wrapped_task w)) ret" by simp
  have "job_future (w, Completed r) = task_future ret (wrapped_task w)"
    unfolding r by (cases "safe_run (coro (wrapped_task w)) ret") (simp_all add: task_future_def)
  with j p have "job_future j = task_future ret (wrapped_task w)" by simp
  with Cons j show ?case by simp
qed

lemma run_concurrently_all:
  assumes "running e" and "throttler e = limit e" and "pool e \<noteq> []"
  shows "\<exists>e1. run_concurrently pick e =
           Some (Inr (map (task_future (return_exceptions e)) (pool e), []), e1) \<and>
           limit e1 = limit e"
proof -
  let ?W = "if limit e \<le> 0 then RunCoro else ScheduleCoro"
  let ?coros = "map ?W (pool e)"
  let ?s0 = "waiting ?coros (e\<lparr>pool := []\<rparr>)"
  have cl: "concurrent_loop (limit e) [] e = (?coros, e\<lparr>pool := []\<rparr>)"
    by (simp add: concurrent_loop_eq)
  obtain c cs where ne: "?coros = c # cs" using assms(3) by (cases "?coros") auto
  have i1: "running (exec ?s0)" using assms(1) by (simp add: waiting_def)
  have "sum_list (map slot (jobs ?s0)) = 0"
    by (rule no_inflight_no_slot) (auto simp: waiting_def)
  then have i2: "throttler (exec ?s0) + sum_list (map slot (jobs ?s0)) = limit e"
    using assms(2) by (simp add: waiting_def)
  have i3: "\<forall>w \<in> set (map fst (jobs ?s0)). \<forall>t. w = ScheduleCoro t \<longrightarrow> 0 < limit e"
    by (auto simp: waiting_def)
  have i4: "list_all (settled (return_exceptions e)) (jobs ?s0)"
    by (auto simp: waiting_def list_all_iff)
  have i5: "return_exceptions (exec ?s0) = return_exceptions e" by (simp add: waiting_def)
  from wait_all_total [OF i1 i2 i3 i4 i5, of pick] obtain s1 where
    w: "wait_all pick ?s0 = Some s1" and st: "list_all (settled (return_exceptions e)) (jobs s1)"
    by blast
  from wait_all_frame [OF w] have
    fr: "map fst (jobs s1) = ?coros" "list_all is_completed (jobs s1)" "limit (exec s1) = limit e"
    by (simp_all add: waiting_def comp_def)
  have all: "filter is_completed (jobs s1) = jobs s1"
    using fr(2) by (simp add: list_all_iff)
  have none: "filter (\<lambda>j. \<not> is_completed j) (jobs s1) = []"
    using fr(2) by (simp add: list_all_iff)
  have "map (\<lambda>w. task_future (return_exceptions e) (wrapped_task w)) ?coros =
        map (task_future (return_exceptions e)) (pool e)"
    by simp
  with settled_futures [OF fr(2) st] fr(1)
  have futs: "map job_future (jobs s1) = map (task_future (return_exceptions e)) (pool e)"
    by simp
  have "run_concurrently pick e =
          Some (Inr (map (task_future (return_exceptions e)) (pool e), []), exec s1)"
    unfolding run_concurrently_def cl using ne w all none futs by simp
  with fr(3) show ?thesis by blast
qed

text \<open>
  Claim C6. With \<open>return_exceptions\<close> true, \<^verbatim>\<open>safe_run\<close> turns an
  \<^verbatim>\<open>Exception\<close> raised by a task into the value it returns, and \<^verbatim>\<open>_run_coro\<close>
  returns that value after announcing it with \<^verbatim>\<open>task.finish\<close>: nothing is raised.
  In the concurrent strategy (limit other than 1, all slots of the semaphore free), whatever
  order the event loop chooses, \<^verbatim>\<open>run\<close> returns with every task of the queue in
  \<open>done\<close>, each holding the outcome of its own coroutine, the captured error for a
  task that failed, and nothing in \<open>pending\<close>: the tasks after a failing one have run.
\<close>

theorem captured_error_is_outcome:
  assumes "limit e \<noteq> 1" and "throttler e = limit e" and "\<not> running e" and "pool e \<noteq> []"
    and "ret_exc = Some True \<or> (ret_exc = None \<and> return_exceptions e)"
  shows "(\<forall>err. is_Exception err \<longrightarrow> safe_run (Raises err) True = Inr (PExc err)) \<and>
    (\<forall>t x err. running x \<and> return_exceptions x \<and> coro t = Raises err \<and> is_Exception err \<longrightarrow>
       run_coro t x =
         (Inr (PExc err), x\<lparr>emitted := emitted x @ [TaskStart t, TaskFinish t (PExc err)]\<rparr>)) \<and>
    (\<exists>e1. run pick ret_exc e = Some (Inr (map (task_future True) (pool e), []), e1) \<and>
          \<not> running e1 \<and> pool e1 = []) \<and>
    (\<forall>t \<in> set (pool e). \<forall>err. coro t = Raises err \<and> is_Exception err \<longrightarrow>
       task_future True t = \<lparr>made_for = index t, state = Result (PExc err)\<rparr>)"
proof -
  have one: "safe_run (Raises err) True = Inr (PExc err)" if "is_Exception err" for err
    using that by (simp add: safe_run_def)
  have two: "run_coro t x =
         (Inr (PExc err), x\<lparr>emitted := emitted x @ [TaskStart t, TaskFinish t (PExc err)]\<rparr>)"
    if "running x" "return_exceptions x" "coro t = Raises err" "is_Exception err" for t x err
    using that by (simp add: run_coro_running safe_run_def)
  have four: "task_future True t = \<lparr>made_for = index t, state = Result (PExc err)\<rparr>"
    if "coro t = Raises err" "is_Exception err" for t err
    using that by (simp add: task_future_def safe_run_def)
  have three: "\<exists>e1. run pick ret_exc e = Some (Inr (map (task_future True) (pool e), []), e1) \<and>
          \<not> running e1 \<and> pool e1 = []"
  proof -
    note b = run_begin_fields [of ret_exc e]
    have re: "return_exceptions (run_begin ret_exc e)"
      using b assms(5) by auto
    have "\<exists>e4. run_concurrently pick (run_begin ret_exc e) =
           Some (Inr (map (task_future (return_exceptions (run_begin ret_exc e)))
                        (pool (run_begin ret_exc e)), []), e4) \<and>
           limit e4 = limit (run_begin ret_exc e)"
      by (rule run_concurrently_all) (use b assms in simp_all)
    then obtain e4 where rc: "run_concurrently pick (run_begin ret_exc e) =
           Some (Inr (map (task_future True) (pool e), []), e4)"
      using re b by auto
    obtain r5 e5 where e5: "run_end (map (task_future True) (pool e), []) e4 = (r5, e5)"
      by (cases "run_end (map (task_future True) (pool e), []) e4")
    have "run pick ret_exc e = Some (r5, e5)"
      using assms(1,3,4) b rc e5 by (simp add: run_def Let_def)
    with run_end_fields [OF e5] show ?thesis by simp
  qed
  from one two three four show ?thesis by blast
qed

text \<open>Three tasks under the limit 2, the second failing; the event loop favours later jobs.\<close>

theorem captured_error_is_outcome_witness:
  "\<exists>e1. run (\<lambda>s. 1) (Some True)
      \<lparr>running = False, return_exceptions = False, limit = 2,
        pool = [\<lparr>index = 0, coro = Returns (PInt 10)\<rparr>,
                \<lparr>index = 1, coro = Raises (TaskError ''boom'')\<rparr>,
                \<lparr>index = 2, coro = Returns (PInt 12)\<rparr>],
        observer = [], throttler = 2, emitted = []\<rparr> =
     Some (Inr ([\<lparr>made_for = 0, state = Result (PInt 10)\<rparr>,
                 \<lparr>made_for = 1, state = Result (PExc (TaskError ''boom''))\<rparr>,
                 \<lparr>made_for = 2, state = Result (PInt 12)\<rparr>], []), e1) \<and>
     \<not> running e1 \<and> pool e1 = []"
proof -
  let ?e = "\<lparr>running = False, return_exceptions = False, limit = 2,
        pool = [\<lparr>index = 0, coro = Returns (PInt 10)\<rparr>,
                \<lparr>index = 1, coro = Raises (TaskError ''boom'')\<rparr>,
                \<lparr>index = 2, coro = Returns (PInt 12)\<rparr>],
        observer = [], throttler = 2, emitted = []\<rparr>"
  have "\<exists>e1. run (\<lambda>s. 1) (Some True) ?e =
          Some (Inr (map (task_future True) (pool ?e), []), e1) \<and> \<not> running e1 \<and> pool e1 = []"
    by (rule captured_error_is_outcome [of ?e "Some True" "\<lambda>s. 1",
          THEN conjunct2, THEN conjunct2, THEN conjunct1]) simp_all
  then show ?thesis by (simp add: task_future_def safe_run_def)
qed

section \<open>The throttle\<close>










lemma wait_begin_eq:
  "wait_begin e =
     waiting (map (if limit e \<le> 0 then RunCoro else ScheduleCoro) (pool e)) (e\<lparr>pool := []\<rparr>)"
  by (simp add: wait_begin_def concurrent_loop_eq)




lemma wait_all_steps: "wait_all pick s = Some s1 \<Longrightarrow> \<exists>xs. s1 = steps xs s"
proof (induction pick s rule: wait_all.induct)
  case (1 pick s)
  show ?case
  proof (cases "list_all is_completed (jobs s)")
    case True
    with "1.prems" have "s1 = steps [] s" by (simp add: wait_all.simps)
    then show ?thesis by blast
  next
    case False
    show ?thesis
    proof (cases "ready s")
      case Nil
      with False "1.prems" show ?thesis by (simp add: wait_all.simps)
    next
      case (Cons r rs)
      let ?k = "(r # rs) ! (pick s mod length (r # rs))"
      have "wait_all pick (advance ?k s) = Some s1"
        using "1.prems" False Cons by (subst (asm) wait_all.simps) simp
      from "1.IH" [OF False Cons this] obtain xs where "s1 = steps xs (advance ?k s)" by blast
      then have "s1 = steps (?k # xs) s" by simp
      then show ?thesis by blast
    qed
  qed
qed

lemma run_concurrently_wait_begin:
  "pool e \<noteq> [] \<Longrightarrow>
     run_concurrently pick e =
       (case wait_all pick (wait_begin e) of
          None \<Rightarrow> None
        | Some s \<Rightarrow>
            Some (Inr (map job_future (filter is_completed (jobs s)),
                       map job_future (filter (\<lambda>j. \<not> is_completed j) (jobs s))),
                  exec s))"
  by (cases "pool e") (simp_all add: run_concurrently_def wait_begin_eq concurrent_loop_eq)




end
